theory Spec2Isabelle
  imports Main "HOL-Library.Word"
begin

section \<open>HexFileInfo: the data model\<close>

text \<open>
  The program is \<^verbatim>\<open>src/HexFileInfo.cpp\<close>. Its \<^verbatim>\<open>unsigned\<close> is taken as a 32-bit
  word (so that \<^verbatim>\<open>2 * sizeof(n)\<close> in \<^verbatim>\<open>fromHex\<close> is 8) and \<^verbatim>\<open>unsigned char\<close> as an
  8-bit word; additions and shifts wrap as they do in C++.
\<close>

type_synonym u32 = "32 word"
type_synonym u8 = "8 word"

text \<open>
  \<^verbatim>\<open>struct Chunk { unsigned address; unsigned size; }\<close>. The field \<^verbatim>\<open>size\<close> is named
  \<open>size'\<close> here, because \<open>size\<close> is a constant of HOL.
\<close>

record Chunk =
  address :: u32
  size' :: u32

subsection \<open>The chunk list of a data record (lines 187 to 226)\<close>

text \<open>
  \<^verbatim>\<open>checkMergeChunk(chunk, iter)\<close> changes the element \<^verbatim>\<open>*iter\<close> in place and returns
  true, or leaves it alone and returns false. The model returns the changed element, or
  \<open>None\<close> for false. Its first argument is the chunk to merge, its second the element
  the iterator points to.
\<close>

definition checkMergeChunk :: "Chunk \<Rightarrow> Chunk \<Rightarrow> Chunk option" where
  "checkMergeChunk chunk it =
     (if address it + size' it = address chunk then
        Some (it\<lparr>size' := size' it + size' chunk\<rparr>)
      else if address chunk + size' chunk = address it then
        Some (it\<lparr>address := address chunk, size' := size' it + size' chunk\<rparr>)
      else None)"

text \<open>The overlap test of lines 197 and 198, on the element \<open>it\<close> and the new chunk.\<close>

definition overlapTest :: "Chunk \<Rightarrow> Chunk \<Rightarrow> bool" where
  "overlapTest it chunk \<longleftrightarrow>
     address it + size' it > address chunk \<and> address chunk + size' chunk > address it"

text \<open>
  Lines 212 to 217: \<open>cur\<close> is the element at \<^verbatim>\<open>iter\<close> and \<open>rest\<close> the elements after
  it. When there is a next element and \<open>cur\<close> merges into it, \<open>cur\<close> is erased.
\<close>

definition mergeNext :: "Chunk \<Rightarrow> Chunk list \<Rightarrow> Chunk list" where
  "mergeNext cur rest =
     (case rest of
        [] \<Rightarrow> [cur]
      | nxt # rest' \<Rightarrow>
          (case checkMergeChunk cur nxt of
             Some nxt' \<Rightarrow> nxt' # rest'
           | None \<Rightarrow> cur # nxt # rest'))"

text \<open>
  The loop of lines 195 to 220 over the list, from its front. The result is the flag
  \<^verbatim>\<open>fAdded\<close>, the list from the current position on, and the overlap counter.
\<close>

fun scanChunks :: "Chunk \<Rightarrow> Chunk list \<Rightarrow> u32 \<Rightarrow> bool \<times> Chunk list \<times> u32" where
  "scanChunks chunk [] n = (False, [], n)"
| "scanChunks chunk (it # rest) n =
     (let n' = (if overlapTest it chunk then n + 1 else n) in
      case checkMergeChunk chunk it of
        Some it' \<Rightarrow> (True, mergeNext it' rest, n')
      | None \<Rightarrow>
          if address chunk \<ge> address it then (True, mergeNext chunk (it # rest), n')
          else (case scanChunks chunk rest n' of
                  (fAdded, rest', n'') \<Rightarrow> (fAdded, it # rest', n'')))"

text \<open>
  One data record's chunk: the loop, then \<^verbatim>\<open>push_front\<close> when the loop added nothing
  (lines 221 to 223). The state is the list \<^verbatim>\<open>chunks\<close> and \<^verbatim>\<open>numOverlapping\<close>.
\<close>

definition addChunk :: "Chunk \<Rightarrow> Chunk list \<times> u32 \<Rightarrow> Chunk list \<times> u32" where
  "addChunk chunk acc =
     (case scanChunks chunk (fst acc) (snd acc) of
        (fAdded, chunks', n') \<Rightarrow>
          if fAdded then (chunks', n') else (chunk # chunks', n'))"

text \<open>A sequence of chunks, added one after the other, the first of the list first.\<close>

definition addChunks :: "Chunk list \<Rightarrow> Chunk list \<times> u32 \<Rightarrow> Chunk list \<times> u32" where
  "addChunks cs acc = foldl (\<lambda>a c. addChunk c a) acc cs"

subsection \<open>Errors\<close>

text \<open>
  Every failure of the program is a \<^verbatim>\<open>std::runtime_error\<close> told apart by its message;
  \<open>what\<close> gives the message of each (the program appends the name of the input file to
  "Error reading file"). \<open>SpanOutOfRange\<close> is no exception of the program: it marks a
  call of \<^verbatim>\<open>subspan\<close> outside the span, which C++ leaves undefined.
\<close>

datatype error =
    InvalidData
  | NumberTooLarge
  | IncorrectChecksum
  | EofRecordBeforeEnd
  | ErrorReadingFile
  | SpanOutOfRange

fun what :: "error \<Rightarrow> string" where
  "what InvalidData = ''Invalid data in hex file''"
| "what NumberTooLarge = ''Number too large''"
| "what IncorrectChecksum = ''Incorrect checksum''"
| "what EofRecordBeforeEnd = ''EOF record before end of file''"
| "what ErrorReadingFile = ''Error reading file''"
| "what SpanOutOfRange = ''(undefined behaviour: subspan out of range)''"

subsection \<open>Characters (the C library in the "C" locale; the program sets no locale)\<close>

text \<open>
  \<open>code\<close> is the value of a character as an unsigned byte. \<^verbatim>\<open>fromHex\<close> hands a plain
  \<^verbatim>\<open>char\<close> to \<^verbatim>\<open>isxdigit\<close> and \<^verbatim>\<open>tolower\<close>; for a byte above 127 the model
  takes what the usual C libraries answer: no hex digit, and no change of case.
\<close>

definition code :: "char \<Rightarrow> int" where
  "code ch = of_char ch"

definition isxdigit :: "char \<Rightarrow> bool" where
  "isxdigit ch \<longleftrightarrow>
     (48 \<le> code ch \<and> code ch \<le> 57) \<or> (65 \<le> code ch \<and> code ch \<le> 70)
     \<or> (97 \<le> code ch \<and> code ch \<le> 102)"

definition tolower :: "char \<Rightarrow> char" where
  "tolower ch = (if 65 \<le> code ch \<and> code ch \<le> 90 then char_of (code ch + 32) else ch)"

definition isprint :: "char \<Rightarrow> bool" where
  "isprint ch \<longleftrightarrow> 32 \<le> code ch \<and> code ch \<le> 126"

subsection \<open>\<^verbatim>\<open>makePrintable\<close> (lines 55 to 70)\<close>

definition makePrintable :: "string \<Rightarrow> string" where
  "makePrintable str =
     (let maxLen = 64;
          strNew = (if length str \<le> maxLen then str else take maxLen str @ ''[etc]'')
      in map (\<lambda>ch. if \<not> isprint ch then CHR ''?'' else ch) strNew)"

subsection \<open>\<^verbatim>\<open>fromHex\<close> (lines 72 to 82)\<close>

text \<open>
  The loop over the digits, with the accumulator \<^verbatim>\<open>n\<close>. The digit's value is computed on
  \<^verbatim>\<open>int\<close> and converted to \<^verbatim>\<open>unsigned\<close> by the addition.
\<close>

fun fromHexLoop :: "string \<Rightarrow> u32 \<Rightarrow> error + u32" where
  "fromHexLoop [] n = Inr n"
| "fromHexLoop (digit # digits) n =
     (if \<not> isxdigit digit then Inl InvalidData
      else
        let digit' = tolower digit in
        fromHexLoop digits
          (n * 16 + word_of_int (if code digit' \<ge> code CHR ''a''
                                 then code digit' - code CHR ''a'' + 10
                                 else code digit' - code CHR ''0'')))"

definition sizeof_unsigned :: nat where
  "sizeof_unsigned = 4"

definition fromHex :: "string \<Rightarrow> error + u32" where
  "fromHex hex =
     (if length hex > 2 * sizeof_unsigned then Inl NumberTooLarge
      else fromHexLoop hex 0)"

subsection \<open>Spans\<close>

text \<open>
  \<^verbatim>\<open>line.subspan(offset, count)\<close>: defined only when \<open>offset + count\<close> is within the
  span.
\<close>

definition subspan :: "string \<Rightarrow> nat \<Rightarrow> nat \<Rightarrow> error + string" where
  "subspan line offset count =
     (if offset + count \<le> length line then Inr (take count (drop offset line))
      else Inl SpanOutOfRange)"

text \<open>\<^verbatim>\<open>fromHex(line.subspan(offset, count))\<close>\<close>

definition hexAt :: "string \<Rightarrow> nat \<Rightarrow> nat \<Rightarrow> error + u32" where
  "hexAt line offset count =
     (case subspan line offset count of
        Inl e \<Rightarrow> Inl e
      | Inr hex \<Rightarrow> fromHex hex)"

subsection \<open>Parsing one line (lines 139 to 153)\<close>

definition dataOffset :: u32 where
  "dataOffset = 1 + 2 + 4 + 2"

definition minLineSize :: u32 where
  "minLineSize = dataOffset + 0 + 2"

definition maxLineSize :: u32 where
  "maxLineSize = minLineSize + 2 * 255"

text \<open>The checksum loop of lines 149 to 152, from the index \<open>i\<close> on.\<close>

function checksumLoop :: "string \<Rightarrow> nat \<Rightarrow> u8 \<Rightarrow> error + u8" where
  "checksumLoop line i checksum =
     (if i < length line - 1 then
        (case hexAt line i 2 of
           Inl e \<Rightarrow> Inl e
         | Inr v \<Rightarrow> checksumLoop line (i + 2) (checksum + ucast v))
      else Inr checksum)"
  by pat_completeness auto
termination
  by (relation "measure (\<lambda>(line, i, checksum). length line - i)") auto

declare checksumLoop.simps [simp del]

text \<open>
  The local variables a parsed line leaves for the \<^verbatim>\<open>switch\<close>: \<^verbatim>\<open>dataSize\<close>,
  \<^verbatim>\<open>address\<close> (here \<open>recAddress\<close>, since \<open>address\<close> is the field of a chunk),
  \<^verbatim>\<open>recordType\<close> (the decoded number; the \<^verbatim>\<open>switch\<close> compares it with the values 0 to 5
  of \<^verbatim>\<open>recordType_t\<close>) and \<^verbatim>\<open>dataSpan\<close>.
\<close>

record Parsed =
  dataSize :: u32
  recAddress :: u32
  recordType :: u32
  dataSpan :: string

definition parseLine :: "u32 \<Rightarrow> string \<Rightarrow> error + Parsed" where
  "parseLine baseAddress line =
     (if length line < unat minLineSize then Inl InvalidData
      else if length line > unat maxLineSize then Inl InvalidData
      else if hd line \<noteq> CHR '':'' then Inl InvalidData
      else
        (case hexAt line 1 2 of
           Inl e \<Rightarrow> Inl e
         | Inr dataSize' \<Rightarrow>
            (if length line \<noteq> unat (minLineSize + 2 * dataSize') then Inl InvalidData
             else
               (case hexAt line 3 4 of
                  Inl e \<Rightarrow> Inl e
                | Inr a \<Rightarrow>
                   (case hexAt line 7 2 of
                      Inl e \<Rightarrow> Inl e
                    | Inr recordType' \<Rightarrow>
                       (case subspan line (unat dataOffset) (unat (2 * dataSize')) of
                          Inl e \<Rightarrow> Inl e
                        | Inr dataSpan' \<Rightarrow>
                           (case checksumLoop line 1 0 of
                              Inl e \<Rightarrow> Inl e
                            | Inr checksum \<Rightarrow>
                               (if checksum \<noteq> 0 then Inl IncorrectChecksum
                                else Inr \<lparr>dataSize = dataSize',
                                          recAddress = baseAddress + a,
                                          recordType = recordType',
                                          dataSpan = dataSpan'\<rparr>))))))))"

subsection \<open>The state of \<^verbatim>\<open>processHexFile\<close> and the record types (lines 121 to 128, 155 to 227)\<close>

record ParseState =
  chunks :: "Chunk list"
  numOverlapping :: u32
  baseAddress :: u32
  foundEof :: bool
  numStartAddresses :: u32
  startAddress :: u32
  numDataRecords :: u32
  maxDataSize :: u32

definition initialState :: ParseState where
  "initialState =
     \<lparr>chunks = [], numOverlapping = 0, baseAddress = 0, foundEof = False,
      numStartAddresses = 0, startAddress = 0, numDataRecords = 0, maxDataSize = 0\<rparr>"

definition typeData :: u32 where "typeData = 0"
definition typeEof :: u32 where "typeEof = 1"
definition typeEsa :: u32 where "typeEsa = 2"
definition typeSsa :: u32 where "typeSsa = 3"
definition typeEla :: u32 where "typeEla = 4"
definition typeSla :: u32 where "typeSla = 5"

text \<open>The \<^verbatim>\<open>switch\<close> on the record type, on a line that has been parsed.\<close>

definition handleRecord :: "ParseState \<Rightarrow> string \<Rightarrow> Parsed \<Rightarrow> error + ParseState" where
  "handleRecord st line r =
     (if recordType r = typeEof then
        (if dataSize r \<noteq> 0 then Inl InvalidData
         else Inr (st\<lparr>foundEof := True\<rparr>))
      else if recordType r = typeEsa then
        (if dataSize r \<noteq> 2 then Inl InvalidData
         else (case fromHex (dataSpan r) of
                 Inl e \<Rightarrow> Inl e
               | Inr v \<Rightarrow> Inr (st\<lparr>baseAddress := push_bit 4 v\<rparr>)))
      else if recordType r = typeSsa then
        (if dataSize r \<noteq> 4 then Inl InvalidData
         else (case hexAt line (unat dataOffset) 4 of
                 Inl e \<Rightarrow> Inl e
               | Inr hi \<Rightarrow>
                  (case hexAt line (unat (dataOffset + 4)) 4 of
                     Inl e \<Rightarrow> Inl e
                   | Inr lo \<Rightarrow>
                       Inr (st\<lparr>startAddress := push_bit 4 hi + lo,
                                numStartAddresses := numStartAddresses st + 1\<rparr>))))
      else if recordType r = typeEla then
        (if dataSize r \<noteq> 2 then Inl InvalidData
         else (case fromHex (dataSpan r) of
                 Inl e \<Rightarrow> Inl e
               | Inr v \<Rightarrow> Inr (st\<lparr>baseAddress := push_bit 16 v\<rparr>)))
      else if recordType r = typeSla then
        (if dataSize r \<noteq> 4 then Inl InvalidData
         else (case fromHex (dataSpan r) of
                 Inl e \<Rightarrow> Inl e
               | Inr v \<Rightarrow>
                   Inr (st\<lparr>startAddress := v,
                            numStartAddresses := numStartAddresses st + 1\<rparr>)))
      else if recordType r = typeData then
        (let chunk = \<lparr>address = recAddress r, size' = dataSize r\<rparr>;
             acc = addChunk chunk (chunks st, numOverlapping st)
         in Inr (st\<lparr>chunks := fst acc, numOverlapping := snd acc,
                     numDataRecords := numDataRecords st + 1,
                     maxDataSize := max (maxDataSize st) (dataSize r)\<rparr>))
      else Inl InvalidData)"

text \<open>The body of the \<^verbatim>\<open>while\<close> loop for one line that was read (lines 134 to 227).\<close>

definition processLine :: "ParseState \<Rightarrow> string \<Rightarrow> error + ParseState" where
  "processLine st line =
     (if foundEof st then Inl EofRecordBeforeEnd
      else case parseLine (baseAddress st) line of
             Inl e \<Rightarrow> Inl e
           | Inr r \<Rightarrow> handleRecord st line r)"

subsection \<open>The loop over the lines and the added context (lines 131 to 237)\<close>

text \<open>
  The input stream is the list of the lines \<^verbatim>\<open>getline\<close> delivers, whether the stream
  is at its end when \<^verbatim>\<open>getline\<close> fails, and what \<^verbatim>\<open>stLine\<close> holds then. An exception
  is caught and thrown again with the line number \<^verbatim>\<open>iLine\<close> and the printable line:
  here a record of the three, in place of the formatted message.
\<close>

record Input =
  inputLines :: "string list"
  inputEof :: bool
  inputLast :: string

record Failure =
  failure :: error
  failureLine :: u32
  failureText :: string

fun readLines :: "string list \<Rightarrow> ParseState \<Rightarrow> u32 \<Rightarrow> Failure + ParseState \<times> u32" where
  "readLines [] st iLine = Inr (st, iLine)"
| "readLines (stLine # rest) st iLine =
     (case processLine st stLine of
        Inl e \<Rightarrow>
          Inl \<lparr>failure = e, failureLine = iLine, failureText = makePrintable stLine\<rparr>
      | Inr st' \<Rightarrow> readLines rest st' (iLine + 1))"

definition processHexFile :: "Input \<Rightarrow> Failure + ParseState" where
  "processHexFile input =
     (case readLines (inputLines input) initialState 1 of
        Inl f \<Rightarrow> Inl f
      | Inr (st, iLine) \<Rightarrow>
          if \<not> inputEof input then
            Inl \<lparr>failure = ErrorReadingFile, failureLine = iLine,
                 failureText = makePrintable (inputLast input)\<rparr>
          else Inr st)"

section \<open>The specification's notions\<close>

text \<open>
  The definitions of this section follow the words of the specification, not the code;
  the theorems compare the code with them.
\<close>

text \<open>An ASCII hex digit, \<open>0-9a-fA-F\<close>, and the value it stands for.\<close>

definition isHexDigit :: "char \<Rightarrow> bool" where
  "isHexDigit ch \<longleftrightarrow> ch \<in> set ''0123456789abcdefABCDEF''"

definition hexDigitValue :: "char \<Rightarrow> nat" where
  "hexDigitValue ch =
     (case map_of
        [(CHR ''0'', 0), (CHR ''1'', 1), (CHR ''2'', 2), (CHR ''3'', 3), (CHR ''4'', 4),
         (CHR ''5'', 5), (CHR ''6'', 6), (CHR ''7'', 7), (CHR ''8'', 8), (CHR ''9'', 9),
         (CHR ''a'', 10), (CHR ''b'', 11), (CHR ''c'', 12), (CHR ''d'', 13),
         (CHR ''e'', 14), (CHR ''f'', 15),
         (CHR ''A'', 10), (CHR ''B'', 11), (CHR ''C'', 12), (CHR ''D'', 13),
         (CHR ''E'', 14), (CHR ''F'', 15)] ch of
        Some v \<Rightarrow> v
      | None \<Rightarrow> 0)"

text \<open>Big-endian hexadecimal: the first digit is the most significant.\<close>

fun hexValue :: "string \<Rightarrow> nat" where
  "hexValue [] = 0"
| "hexValue (ch # digits) = hexDigitValue ch * 16 ^ length digits + hexValue digits"

text \<open>The byte values of the 2-hex-digit groups of a text.\<close>

fun byteValues :: "string \<Rightarrow> nat list" where
  "byteValues (a # b # rest) = hexValue [a, b] # byteValues rest"
| "byteValues _ = []"

text \<open>
  The sum the checksum rule speaks of: every group from the byte-count field through
  the checksum byte, that is, of the whole line after its colon.
\<close>

definition byteSum :: "string \<Rightarrow> nat" where
  "byteSum line = sum_list (byteValues (tl line))"

text \<open>
  A correctly framed line: the colon, hex digits after it, and a length of \<open>11 + 2N\<close>
  for the byte count \<open>N\<close> of its characters 1 and 2.
\<close>

definition byteCount :: "string \<Rightarrow> nat" where
  "byteCount line = hexValue (take 2 (drop 1 line))"

definition framed :: "string \<Rightarrow> bool" where
  "framed line \<longleftrightarrow>
     line \<noteq> [] \<and> hd line = CHR '':'' \<and> list_all isHexDigit (tl line)
     \<and> length line = 11 + 2 * byteCount line"

text \<open>The other fields of a framed line.\<close>

definition rawAddress :: "string \<Rightarrow> nat" where
  "rawAddress line = hexValue (take 4 (drop 3 line))"

definition typeField :: "string \<Rightarrow> nat" where
  "typeField line = hexValue (take 2 (drop 7 line))"

definition payload :: "string \<Rightarrow> string" where
  "payload line = take (2 * byteCount line) (drop 9 line)"

subsection \<open>Chunks as sets of bytes\<close>

text \<open>
  The bytes of a chunk, as natural numbers: from its address up to, not including, its
  end. A chunk is well-formed when it has a size above 0 and its end, address plus size,
  is below \<open>2 ^ 32\<close>: it does not hold the last byte \<open>0xFFFFFFFF\<close> of the address
  space, and so no sum of the code wraps around, not even to 0.
\<close>

definition chunkEnd :: "Chunk \<Rightarrow> nat" where
  "chunkEnd c = unat (address c) + unat (size' c)"

definition chunkBytes :: "Chunk \<Rightarrow> nat set" where
  "chunkBytes c = {unat (address c) ..< chunkEnd c}"

definition validChunk :: "Chunk \<Rightarrow> bool" where
  "validChunk c \<longleftrightarrow> 0 < unat (size' c) \<and> chunkEnd c < 2 ^ 32"

text \<open>The bytes covered by a list of chunks.\<close>

definition covered :: "Chunk list \<Rightarrow> nat set" where
  "covered cs = \<Union> (chunkBytes ` set cs)"

text \<open>Two chunks that share no byte (they may touch).\<close>

definition disjointChunks :: "Chunk \<Rightarrow> Chunk \<Rightarrow> bool" where
  "disjointChunks a b \<longleftrightarrow> chunkEnd a \<le> unat (address b) \<or> chunkEnd b \<le> unat (address a)"

text \<open>
  \<open>below b a\<close>: the chunk \<open>b\<close> ends before \<open>a\<close> starts, with at least one byte
  between them, so the two neither overlap nor touch.
\<close>

definition below :: "Chunk \<Rightarrow> Chunk \<Rightarrow> bool" where
  "below b a \<longleftrightarrow> chunkEnd b < unat (address a)"

text \<open>
  The order the program means its list to have ("in order of address", added "in
  reverse order"): well-formed chunks, every chunk below all the chunks in front of it.
\<close>

definition descending :: "Chunk list \<Rightarrow> bool" where
  "descending cs \<longleftrightarrow> list_all validChunk cs \<and> sorted_wrt (\<lambda>a b. below b a) cs"

text \<open>
  The chunks the amended claim C1 speaks of: well-formed, sharing no byte with a chunk
  of the list, and, unless the list is empty, not wholly below its last (lowest) chunk
  with a gap, which is the case the loop leaves to \<^verbatim>\<open>push_front\<close>.
\<close>

definition admissible :: "Chunk list \<Rightarrow> Chunk \<Rightarrow> bool" where
  "admissible cs c \<longleftrightarrow>
     validChunk c \<and> list_all (\<lambda>e. disjointChunks e c) cs
     \<and> (cs = [] \<or> unat (address (last cs)) \<le> chunkEnd c)"

text \<open>A sequence of chunks, each admissible for the list at the time it is added.\<close>

fun admissibleSeq :: "Chunk list \<times> u32 \<Rightarrow> Chunk list \<Rightarrow> bool" where
  "admissibleSeq acc [] = True"
| "admissibleSeq acc (c # cs) =
     (admissible (fst acc) c \<and> admissibleSeq (addChunk c acc) cs)"

section \<open>The chunk list on the examples of the specification\<close>

lemmas chunk_eval =
  addChunks_def addChunk_def mergeNext_def checkMergeChunk_def overlapTest_def

text \<open>
  C3, as the specification states it, does not hold: after the chunks \<open>{0,8}\<close> and
  \<open>{4,4}\<close> the list does not consist of the one chunk \<open>{0,8}\<close>.
\<close>

theorem C3_contained_chunk_counterexample:
  "fst (addChunks [\<lparr>address = 0, size' = 8\<rparr>, \<lparr>address = 4, size' = 4\<rparr>] ([], 0))
     \<noteq> [\<lparr>address = 0, size' = 8\<rparr>]"
  by (simp add: chunk_eval)

text \<open>
  C3, amended: starting from an empty list, the chunks \<open>{0,8}\<close> and then \<open>{4,4}\<close> leave
  two chunks in the list, \<open>{4,4}\<close> in front of \<open>{0,8}\<close> (a chunk is merged only where it
  touches another, never where it overlaps one), and the overlap count is 1.
\<close>

theorem C3_contained_chunk_kept:
  "addChunks [\<lparr>address = 0, size' = 8\<rparr>, \<lparr>address = 4, size' = 4\<rparr>] ([], 0)
     = ([\<lparr>address = 4, size' = 4\<rparr>, \<lparr>address = 0, size' = 8\<rparr>], 1)"
  by (simp add: chunk_eval)

text \<open>
  C4: starting from an empty list, the chunks \<open>{0,4}\<close>, \<open>{10,4}\<close> and \<open>{4,6}\<close> leave
  exactly one chunk, \<open>{0,14}\<close>: the list is \<open>{10,4}\<close>, \<open>{0,4}\<close> when the third chunk
  comes; it merges into \<open>{10,4}\<close>, and the result merges into the following element
  \<open>{0,4}\<close>.
\<close>

theorem C4_bridging_chunk_merges_both:
  "fst (addChunks [\<lparr>address = 0, size' = 4\<rparr>, \<lparr>address = 10, size' = 4\<rparr>,
                   \<lparr>address = 4, size' = 6\<rparr>] ([], 0))
     = [\<lparr>address = 0, size' = 14\<rparr>]"
  by (simp add: chunk_eval)

section \<open>The hex-digit decoder\<close>


lemma code_literal: "(ch = d) \<longleftrightarrow> (code ch = code d)"
  by (simp add: code_def)

lemma isHexDigit_code:
  "isHexDigit ch \<longleftrightarrow> code ch \<in> {48, 49, 50, 51, 52, 53, 54, 55, 56, 57,
      97, 98, 99, 100, 101, 102, 65, 66, 67, 68, 69, 70}"
  unfolding isHexDigit_def
  by (simp add: code_literal [of ch]) (simp add: code_def)

lemma isxdigit_isHexDigit: "isxdigit ch \<longleftrightarrow> isHexDigit ch"
  unfolding isHexDigit_code isxdigit_def insert_iff empty_iff by presburger

lemma digit_value_table:
  "\<forall>ch \<in> set ''0123456789abcdefABCDEF''.
     (if code (tolower ch) \<ge> code CHR ''a''
      then code (tolower ch) - code CHR ''a'' + 10
      else code (tolower ch) - code CHR ''0'') = int (hexDigitValue ch)"
  by (simp add: hexDigitValue_def tolower_def code_def char_of_eq_iff)

lemma digit_value:
  "isHexDigit ch \<Longrightarrow>
     (if code (tolower ch) \<ge> code CHR ''a''
      then code (tolower ch) - code CHR ''a'' + 10
      else code (tolower ch) - code CHR ''0'') = int (hexDigitValue ch)"
  using digit_value_table unfolding isHexDigit_def by blast

lemma hexDigitValue_less: "hexDigitValue ch < 16"
  by (simp add: hexDigitValue_def)

lemma hexValue_less: "hexValue hex < 16 ^ length hex"
proof (induction hex)
  case Nil
  show ?case by simp
next
  case (Cons ch hex)
  define p :: nat where "p = 16 ^ length hex"
  have "hexDigitValue ch \<le> 15"
    using hexDigitValue_less [of ch] by simp
  then have "hexDigitValue ch * p \<le> 15 * p"
    by (rule mult_le_mono1)
  moreover have "hexValue hex < p"
    using Cons by (simp add: p_def)
  ultimately have "hexDigitValue ch * p + hexValue hex < 16 * p"
    by linarith
  then show ?case by (simp add: p_def)
qed

lemma fromHexLoop_digits:
  "list_all isHexDigit hex \<Longrightarrow>
     fromHexLoop hex n = Inr (n * 16 ^ length hex + of_nat (hexValue hex))"
proof (induction hex arbitrary: n)
  case Nil
  show ?case by simp
next
  case (Cons ch hex)
  then have ch: "isHexDigit ch" and hex: "list_all isHexDigit hex" by simp_all
  show ?case
    by (simp add: isxdigit_isHexDigit ch digit_value [OF ch] Cons.IH [OF hex]
        algebra_simps del: of_nat_add of_nat_mult) (simp add: algebra_simps)
qed

lemma fromHexLoop_invalid:
  "\<not> list_all isHexDigit hex \<Longrightarrow> fromHexLoop hex n = Inl InvalidData"
  by (induction hex arbitrary: n) (auto simp: isxdigit_isHexDigit Let_def)


lemma fromHex_eq:
  "fromHex hex =
     (if 8 < length hex then Inl NumberTooLarge
      else if \<not> list_all isHexDigit hex then Inl InvalidData
      else Inr (of_nat (hexValue hex)))"
  by (simp add: fromHex_def sizeof_unsigned_def fromHexLoop_digits fromHexLoop_invalid)

lemma hexValue_less_word:
  assumes "length hex \<le> 8"
  shows "hexValue hex < 2 ^ 32"
proof -
  have "(16::nat) ^ length hex \<le> 16 ^ 8"
    using assms by (rule power_increasing) simp
  then show ?thesis
    using hexValue_less [of hex] by simp
qed

lemma hexAt_eq:
  "offset + count \<le> length line \<Longrightarrow>
     hexAt line offset count = fromHex (take count (drop offset line))"
  by (simp add: hexAt_def subspan_def)

lemma drop_pair:
  assumes "Suc i < length line"
  shows "drop i line = line ! i # line ! Suc i # drop (i + 2) line"
proof -
  have "drop i line = line ! i # drop (Suc i) line"
    using assms by (simp add: Cons_nth_drop_Suc)
  also have "drop (Suc i) line = line ! Suc i # drop (Suc (Suc i)) line"
    using assms by (simp add: Cons_nth_drop_Suc)
  finally show ?thesis by simp
qed

lemma ucast_of_nat_u8: "(ucast (of_nat n :: u32) :: u8) = of_nat n"
  by (simp add: unsigned_of_nat word_of_nat_eq_iff)

lemma checksumLoop_eq:
  "even (length line - i) \<Longrightarrow> i \<le> length line \<Longrightarrow>
     checksumLoop line i checksum =
       (if list_all isHexDigit (drop i line)
        then Inr (checksum + of_nat (sum_list (byteValues (drop i line))))
        else Inl InvalidData)"
proof (induction line i checksum rule: checksumLoop.induct)
  case (1 line i checksum)
  show ?case
  proof (cases "i < length line - 1")
    case False
    with "1.prems" have "length line - i \<le> 1" by arith
    with "1.prems" have "length line - i = 0"
      by (cases "length line - i = 1") simp_all
    with "1.prems" have "drop i line = []" by simp
    moreover have "checksumLoop line i checksum = Inr checksum"
      using False by (subst checksumLoop.simps) simp
    ultimately show ?thesis by simp
  next
    case True
    then have lt: "Suc i < length line" by simp
    let ?a = "line ! i" and ?b = "line ! Suc i"
    have dr: "drop i line = ?a # ?b # drop (i + 2) line"
      using lt by (rule drop_pair)
    have pair: "take 2 (drop i line) = [?a, ?b]"
      by (subst dr) (simp add: numeral_2_eq_2)
    have at: "hexAt line i 2 = fromHex [?a, ?b]"
      using lt by (simp add: hexAt_eq pair)
    show ?thesis
    proof (cases "isHexDigit ?a \<and> isHexDigit ?b")
      case False
      then have "hexAt line i 2 = Inl InvalidData"
        by (auto simp: at fromHex_eq)
      moreover have "\<not> list_all isHexDigit (drop i line)"
        using False by (subst dr) auto
      ultimately show ?thesis
        using True by (subst checksumLoop.simps) simp
    next
      case digits: True
      define v where "v = hexValue [?a, ?b]"
      have at': "hexAt line i 2 = Inr (of_nat v)"
        using digits by (simp add: at fromHex_eq v_def)
      have ev: "even (length line - (i + 2))"
        using "1.prems" lt by simp
      have le: "i + 2 \<le> length line"
        using lt by simp
      have step: "checksumLoop line i checksum =
          checksumLoop line (i + 2) (checksum + ucast (of_nat v :: u32))"
        using True by (subst checksumLoop.simps) (simp add: at')
      have all: "list_all isHexDigit (drop i line) = list_all isHexDigit (drop (i + 2) line)"
        using digits by (subst dr) simp
      have sum: "sum_list (byteValues (drop i line)) =
          v + sum_list (byteValues (drop (i + 2) line))"
        by (subst dr) (simp add: v_def)
      have "checksumLoop line (i + 2) (checksum + ucast (of_nat v :: u32)) =
          (if list_all isHexDigit (drop (i + 2) line)
           then Inr (checksum + ucast (of_nat v :: u32)
                     + of_nat (sum_list (byteValues (drop (i + 2) line))))
           else Inl InvalidData)"
        by (rule "1.IH" [OF True at' ev le])
      then show ?thesis
        unfolding step all sum ucast_of_nat_u8
        by (simp add: add.assoc)
    qed
  qed
qed


text \<open>
  C6: a sequence longer than the capacity of \<open>2 * sizeof(unsigned) = 8\<close> digits gives
  "Number too large", whatever its characters; a sequence within the capacity gives
  "Invalid data in hex file" when one of its characters is no ASCII hex digit and its
  big-endian hexadecimal value otherwise, which then fits the 32-bit result.
\<close>

theorem C6_fromHex_decodes:
  "2 * sizeof_unsigned = 8 \<and>
   fromHex hex =
     (if length hex > 2 * sizeof_unsigned then Inl NumberTooLarge
      else if \<exists>ch \<in> set hex. \<not> isHexDigit ch then Inl InvalidData
      else Inr (word_of_nat (hexValue hex))) \<and>
   (length hex \<le> 2 * sizeof_unsigned \<longrightarrow>
      unat (word_of_nat (hexValue hex) :: u32) = hexValue hex)"
proof -
  have "length hex \<le> 8 \<Longrightarrow> unat (word_of_nat (hexValue hex) :: u32) = hexValue hex"
    using hexValue_less_word [of hex] by (simp add: unat_of_nat)
  then show ?thesis
    by (simp add: fromHex_eq sizeof_unsigned_def list_all_iff)
qed

theorem C6_fromHex_witness:
  "fromHex ''zzzzzzzzz'' = Inl NumberTooLarge \<and>
   fromHex ''12g4'' = Inl InvalidData \<and>
   fromHex ''1aF'' = Inr 431 \<and>
   unat (word_of_nat (hexValue ''1aF'') :: u32) = 431"
  using C6_fromHex_decodes [of "''zzzzzzzzz''"] C6_fromHex_decodes [of "''12g4''"]
    C6_fromHex_decodes [of "''1aF''"]
  by (simp add: sizeof_unsigned_def isHexDigit_def hexDigitValue_def)

section \<open>The record parser\<close>


lemma line_sizes:
  "unat dataOffset = 9" "unat minLineSize = 11" "unat maxLineSize = 521"
  by (simp_all add: dataOffset_def minLineSize_def maxLineSize_def)

lemma byteCount_less: "byteCount line < 256"
proof -
  have "(16::nat) ^ length (take 2 (drop 1 line)) \<le> 16 ^ 2"
    by (rule power_increasing) simp_all
  then show ?thesis
    using hexValue_less [of "take 2 (drop 1 line)"] by (simp add: byteCount_def)
qed

lemma unat_line_size:
  assumes "n < 256"
  shows "unat (minLineSize + 2 * word_of_nat n :: u32) = 11 + 2 * n"
proof -
  have "minLineSize + 2 * word_of_nat n = (word_of_nat (11 + 2 * n) :: u32)"
    by (simp add: minLineSize_def dataOffset_def)
  moreover have "unat (word_of_nat (11 + 2 * n) :: u32) = 11 + 2 * n"
    using assms by (simp add: unat_of_nat del: of_nat_add of_nat_mult)
  ultimately show ?thesis by simp
qed

lemma unat_twice_count:
  assumes "n < 256"
  shows "unat (2 * word_of_nat n :: u32) = 2 * n"
proof -
  have "2 * word_of_nat n = (word_of_nat (2 * n) :: u32)" by simp
  moreover have "unat (word_of_nat (2 * n) :: u32) = 2 * n"
    using assms by (simp add: unat_of_nat del: of_nat_add of_nat_mult)
  ultimately show ?thesis by simp
qed

lemma field_digits:
  assumes "list_all P (tl line)" and "0 < k"
  shows "list_all P (take n (drop k line))"
proof -
  from \<open>0 < k\<close> obtain j where k: "k = Suc j" by (cases k) auto
  have "set (take n (drop j (tl line))) \<subseteq> set (tl line)"
    by (meson set_take_subset set_drop_subset subset_trans)
  with assms(1) show ?thesis
    by (auto simp: k drop_Suc list_all_iff)
qed

lemma u8_of_nat_zero: "(word_of_nat n :: u8) = 0 \<longleftrightarrow> n mod 256 = 0"
  by (simp add: word_of_nat_eq_0_iff dvd_eq_mod_eq_0)

lemma tl_drop1: "drop (Suc 0) line = tl line"
  by (simp add: drop_Suc)

lemma parseLine_early:
  assumes "length line < 11 \<or> 521 < length line \<or> hd line \<noteq> CHR '':''"
  shows "parseLine base line = Inl InvalidData" and "\<not> framed line"
proof -
  show "parseLine base line = Inl InvalidData"
    using assms by (auto simp: parseLine_def line_sizes)
  show "\<not> framed line"
    using assms byteCount_less [of line] by (auto simp: framed_def)
qed

lemma parseLine_late:
  assumes len: "11 \<le> length line" "length line \<le> 521"
    and colon: "hd line = CHR '':''"
  shows "parseLine base line =
     (if \<not> framed line then Inl InvalidData
      else if byteSum line mod 256 \<noteq> 0 then Inl IncorrectChecksum
      else Inr \<lparr>dataSize = word_of_nat (byteCount line),
                recAddress = base + word_of_nat (rawAddress line),
                recordType = word_of_nat (typeField line),
                dataSpan = payload line\<rparr>)"
proof -
  let ?n = "byteCount line"
  have ne: "line \<noteq> []" using len by auto
  have pre: "\<not> length line < unat minLineSize" "\<not> length line > unat maxLineSize"
    "\<not> hd line \<noteq> CHR '':''"
    using len colon by (simp_all add: line_sizes)
  have at1: "hexAt line 1 2 = fromHex (take 2 (drop 1 line))"
    and at3: "hexAt line 3 4 = fromHex (take 4 (drop 3 line))"
    and at7: "hexAt line 7 2 = fromHex (take 2 (drop 7 line))"
    using len by (simp_all add: hexAt_eq)
  show ?thesis
  proof (cases "list_all isHexDigit (tl line) \<and> length line = 11 + 2 * ?n")
    case True
    then have dig: "list_all isHexDigit (tl line)" and eq: "length line = 11 + 2 * ?n"
      by simp_all
    have fr: "framed line"
      using ne colon dig eq by (simp add: framed_def)
    have d1: "list_all isHexDigit (take 2 (drop 1 line))"
      and d3: "list_all isHexDigit (take 4 (drop 3 line))"
      and d7: "list_all isHexDigit (take 2 (drop 7 line))"
      using dig by (simp_all add: field_digits)
    have h1: "hexAt line 1 2 = Inr (word_of_nat ?n)"
      unfolding at1 using d1 by (simp add: fromHex_eq byteCount_def)
    have h3: "hexAt line 3 4 = Inr (word_of_nat (rawAddress line))"
      unfolding at3 using d3 by (simp add: fromHex_eq rawAddress_def)
    have h7: "hexAt line 7 2 = Inr (word_of_nat (typeField line))"
      unfolding at7 using d7 by (simp add: fromHex_eq typeField_def)
    have sz: "unat (minLineSize + 2 * word_of_nat ?n :: u32) = length line"
      using eq byteCount_less [of line] by (simp add: unat_line_size)
    have sp: "subspan line (unat dataOffset) (unat (2 * word_of_nat ?n :: u32))
        = Inr (payload line)"
      using eq byteCount_less [of line]
      by (simp add: subspan_def line_sizes unat_twice_count payload_def)
    have ev: "even (length line - 1)" using eq by simp
    have ck: "checksumLoop line 1 0 = Inr (word_of_nat (byteSum line))"
      using checksumLoop_eq [OF ev, of 0] len dig
      by (simp add: tl_drop1 byteSum_def)
    show ?thesis
      unfolding parseLine_def
      by (simp only: pre h1 h3 h7 sz sp ck fr u8_of_nat_zero sum.case simp_thms
          if_True if_False)
  next
    case False
    then have nf: "\<not> framed line" by (auto simp: framed_def)
    have "parseLine base line = Inl InvalidData"
    proof (cases "list_all isHexDigit (take 2 (drop 1 line))")
      case False
      then have "hexAt line 1 2 = Inl InvalidData"
        unfolding at1 by (simp add: fromHex_eq)
      then show ?thesis
        unfolding parseLine_def by (simp only: pre sum.case simp_thms if_True if_False)
    next
      case d1: True
      have h1: "hexAt line 1 2 = Inr (word_of_nat ?n)"
        unfolding at1 using d1 by (simp add: fromHex_eq byteCount_def)
      show ?thesis
      proof (cases "length line = 11 + 2 * ?n")
        case neq: False
        then have "length line \<noteq> unat (minLineSize + 2 * word_of_nat ?n :: u32)"
          using byteCount_less [of line] by (simp add: unat_line_size)
        then show ?thesis
          unfolding parseLine_def by (simp only: pre h1 sum.case simp_thms if_True if_False)
      next
        case eq: True
        with False have nd: "\<not> list_all isHexDigit (tl line)" by simp
        have sz: "unat (minLineSize + 2 * word_of_nat ?n :: u32) = length line"
          using eq byteCount_less [of line] by (simp add: unat_line_size)
        have sp: "subspan line (unat dataOffset) (unat (2 * word_of_nat ?n :: u32))
            = Inr (payload line)"
          using eq byteCount_less [of line]
          by (simp add: subspan_def line_sizes unat_twice_count payload_def)
        have ev: "even (length line - 1)" using eq by simp
        have ck: "checksumLoop line 1 0 = Inl InvalidData"
          using checksumLoop_eq [OF ev, of 0] len nd
          by (simp add: tl_drop1)
        have f3: "hexAt line 3 4 = Inl InvalidData \<or> (\<exists>a. hexAt line 3 4 = Inr a)"
          unfolding at3 by (simp add: fromHex_eq)
        have f7: "hexAt line 7 2 = Inl InvalidData \<or> (\<exists>t. hexAt line 7 2 = Inr t)"
          unfolding at7 by (simp add: fromHex_eq)
        from f3 f7 show ?thesis
          unfolding parseLine_def
          by (auto simp only: pre h1 sz sp ck sum.case simp_thms if_True if_False)
      qed
    qed
    with nf show ?thesis by simp
  qed
qed

lemma parseLine_eq:
  "parseLine base line =
     (if \<not> framed line then Inl InvalidData
      else if byteSum line mod 256 \<noteq> 0 then Inl IncorrectChecksum
      else Inr \<lparr>dataSize = word_of_nat (byteCount line),
                recAddress = base + word_of_nat (rawAddress line),
                recordType = word_of_nat (typeField line),
                dataSpan = payload line\<rparr>)"
proof (cases "length line < 11 \<or> 521 < length line \<or> hd line \<noteq> CHR '':''")
  case True
  then show ?thesis by (simp only: parseLine_early if_True not_False_eq_True)
next
  case False
  then show ?thesis by (intro parseLine_late) auto
qed


lemma fromHex_no_checksum_error: "fromHex hex \<noteq> Inl IncorrectChecksum"
  by (simp add: fromHex_eq)

lemma hexAt_no_checksum_error: "hexAt line offset count \<noteq> Inl IncorrectChecksum"
  by (simp add: hexAt_def subspan_def fromHex_no_checksum_error)

lemma handleRecord_no_checksum_error:
  "handleRecord st line r \<noteq> Inl IncorrectChecksum"
  using fromHex_no_checksum_error [of "dataSpan r"]
    hexAt_no_checksum_error [of line "unat dataOffset" 4]
    hexAt_no_checksum_error [of line "unat (dataOffset + 4)" 4]
  by (auto simp: handleRecord_def Let_def split: sum.splits)

text \<open>
  C5: on a correctly framed line (colon, hex digits, length \<open>11 + 2N\<close>) the parser
  accepts the line exactly when the byte values of all its 2-digit groups, the checksum
  byte included, sum to 0 modulo 256, and fails with "Incorrect checksum" (not with
  "Invalid data in hex file") exactly when they do not; no later step of the line's
  processing gives that error.
\<close>

theorem C5_checksum_rule:
  assumes "framed line"
  shows "((\<exists>r. parseLine base line = Inr r) \<longleftrightarrow> byteSum line mod 256 = 0) \<and>
         (parseLine base line = Inl IncorrectChecksum \<longleftrightarrow> byteSum line mod 256 \<noteq> 0) \<and>
         parseLine base line \<noteq> Inl InvalidData \<and>
         (\<not> foundEof st \<longrightarrow>
            (processLine st line = Inl IncorrectChecksum \<longleftrightarrow> byteSum line mod 256 \<noteq> 0)) \<and>
         what IncorrectChecksum = ''Incorrect checksum''"
proof -
  have p: "parseLine (baseAddress st) line = Inl IncorrectChecksum \<longleftrightarrow> byteSum line mod 256 \<noteq> 0"
    using assms by (simp add: parseLine_eq)
  have "\<not> foundEof st \<Longrightarrow>
      (processLine st line = Inl IncorrectChecksum \<longleftrightarrow> byteSum line mod 256 \<noteq> 0)"
    using p handleRecord_no_checksum_error [of st line]
    by (auto simp: processLine_def split: sum.splits)
  then show ?thesis
    using assms by (simp add: parseLine_eq)
qed

lemmas line_eval =
  framed_def byteSum_def byteCount_def rawAddress_def typeField_def payload_def
  isHexDigit_def hexDigitValue_def

theorem C5_checksum_rule_witness:
  "framed '':0400000001020304F3'' \<and>
   parseLine 0 '':0400000001020304F3'' = Inl IncorrectChecksum \<and>
   framed '':0400000001020304F2'' \<and>
   (\<exists>r. parseLine 0 '':0400000001020304F2'' = Inr r)"
proof -
  have f1: "framed '':0400000001020304F3''" by (simp add: line_eval)
  have f2: "framed '':0400000001020304F2''" by (simp add: line_eval)
  have s1: "byteSum '':0400000001020304F3'' mod 256 \<noteq> 0" by (simp add: line_eval)
  have s2: "byteSum '':0400000001020304F2'' mod 256 = 0" by (simp add: line_eval)
  show ?thesis
    using C5_checksum_rule [OF f1, of 0 initialState] C5_checksum_rule [OF f2, of 0 initialState]
      f1 f2 s1 s2 by simp
qed


text \<open>
  C7: a line whose length is not \<open>11 + 2N\<close> for the byte count \<open>N\<close> that its
  characters 1 and 2 decode to (also when they decode to nothing) fails with "Invalid
  data in hex file"; no \<^verbatim>\<open>subspan\<close> of the line is taken out of its range.
\<close>

theorem C7_wrong_length_is_format_error:
  assumes "\<forall>n. fromHex (take 2 (drop 1 line)) = Inr n \<longrightarrow> length line \<noteq> 11 + 2 * unat n"
  shows "parseLine base line = Inl InvalidData \<and>
         parseLine base line \<noteq> Inl SpanOutOfRange \<and>
         (\<not> foundEof st \<longrightarrow> processLine st line = Inl InvalidData)"
proof -
  have "\<not> framed line"
  proof
    assume fr: "framed line"
    then have "list_all isHexDigit (take 2 (drop 1 line))"
      by (simp add: framed_def field_digits)
    then have "fromHex (take 2 (drop 1 line)) = Inr (word_of_nat (byteCount line))"
      by (simp add: fromHex_eq byteCount_def)
    moreover have "unat (word_of_nat (byteCount line) :: u32) = byteCount line"
      using byteCount_less [of line] by (simp add: unat_of_nat)
    ultimately have "length line \<noteq> 11 + 2 * byteCount line"
      using assms by fastforce
    with fr show False by (simp add: framed_def)
  qed
  then have "parseLine b line = Inl InvalidData" for b
    by (simp add: parseLine_eq)
  then show ?thesis
    by (simp add: processLine_def)
qed

theorem C7_wrong_length_witness:
  "fromHex (take 2 (drop 1 '':02000000AAFF'')) = Inr 2 \<and>
   length '':02000000AAFF'' = 13 \<and>
   parseLine 0 '':02000000AAFF'' = Inl InvalidData \<and>
   processLine initialState '':02000000AAFF'' = Inl InvalidData"
proof -
  have h: "fromHex (take 2 (drop 1 '':02000000AAFF'')) = Inr 2"
    by (simp add: fromHex_eq line_eval)
  have "\<forall>n. fromHex (take 2 (drop 1 '':02000000AAFF'')) = Inr n
          \<longrightarrow> length '':02000000AAFF'' \<noteq> 11 + 2 * unat n"
    unfolding h by simp
  from C7_wrong_length_is_format_error [OF this, of 0 initialState] h
  show ?thesis by (simp add: initialState_def)
qed


lemma typeField_less: "typeField line < 256"
proof -
  have "(16::nat) ^ length (take 2 (drop 7 line)) \<le> 16 ^ 2"
    by (rule power_increasing) simp_all
  then show ?thesis
    using hexValue_less [of "take 2 (drop 7 line)"] by (simp add: typeField_def)
qed

lemma record_types:
  "typeData = 0" "typeEof = 1" "typeEsa = 2" "typeSsa = 3" "typeEla = 4" "typeSla = 5"
  by (simp_all add: typeData_def typeEof_def typeEsa_def typeSsa_def typeEla_def typeSla_def)

lemma u32_of_nat_eq:
  assumes "n < 256" and "k < 256"
  shows "(word_of_nat n :: u32) = word_of_nat k \<longleftrightarrow> n = k"
  using assms by (simp add: word_of_nat_eq_iff take_bit_nat_eq_self)

lemma unknown_type_invalid:
  assumes "5 < t" and "t < 256" and "recordType r = word_of_nat t"
  shows "handleRecord st line r = Inl InvalidData"
proof -
  have "(word_of_nat t :: u32) \<noteq> word_of_nat k" if "k \<le> 5" for k
    using assms that by (simp add: u32_of_nat_eq)
  from this [of 0] this [of 1] this [of 2] this [of 3] this [of 4] this [of 5]
  show ?thesis
    by (simp add: handleRecord_def record_types assms(3))
qed

text \<open>
  C10: the checks of a line come in this order: the EOF flag, then framing (colon, hex
  digits, length; "Invalid data in hex file"), then the checksum ("Incorrect checksum"),
  and only then the \<^verbatim>\<open>switch\<close> on the record type with its payload-size checks. So a
  framed line with a wrong checksum reports "Incorrect checksum" whatever its type, the
  \<^verbatim>\<open>switch\<close> is reached only on framed lines whose bytes sum to 0 modulo 256, and there
  a type above 5 is "Invalid data in hex file".
\<close>

theorem C10_validation_order:
  "processLine st line =
     (if foundEof st then Inl EofRecordBeforeEnd
      else if \<not> framed line then Inl InvalidData
      else if byteSum line mod 256 \<noteq> 0 then Inl IncorrectChecksum
      else handleRecord st line
             \<lparr>dataSize = word_of_nat (byteCount line),
              recAddress = baseAddress st + word_of_nat (rawAddress line),
              recordType = word_of_nat (typeField line),
              dataSpan = payload line\<rparr>) \<and>
   (\<forall>r. parseLine (baseAddress st) line = Inr r \<longrightarrow>
      framed line \<and> byteSum line mod 256 = 0) \<and>
   (\<not> foundEof st \<and> framed line \<and> byteSum line mod 256 = 0 \<and> 5 < typeField line \<longrightarrow>
      processLine st line = Inl InvalidData)"
proof -
  let ?r = "\<lparr>dataSize = word_of_nat (byteCount line),
             recAddress = baseAddress st + word_of_nat (rawAddress line),
             recordType = word_of_nat (typeField line),
             dataSpan = payload line\<rparr>"
  have order: "processLine st line =
     (if foundEof st then Inl EofRecordBeforeEnd
      else if \<not> framed line then Inl InvalidData
      else if byteSum line mod 256 \<noteq> 0 then Inl IncorrectChecksum
      else handleRecord st line ?r)"
    by (simp add: processLine_def parseLine_eq)
  have reach: "\<forall>r. parseLine (baseAddress st) line = Inr r \<longrightarrow>
      framed line \<and> byteSum line mod 256 = 0"
    by (simp add: parseLine_eq split: if_splits)
  have "handleRecord st line ?r = Inl InvalidData" if "5 < typeField line"
    using that typeField_less [of line] by (intro unknown_type_invalid) simp_all
  with order reach show ?thesis by simp
qed

theorem C10_validation_order_witness:
  "processLine initialState '':00000006AB'' = Inl IncorrectChecksum \<and>
   processLine initialState '':00000006FA'' = Inl InvalidData \<and>
   processLine initialState '':0000006FA'' = Inl InvalidData"
proof -
  have a: "framed '':00000006AB''" "byteSum '':00000006AB'' mod 256 \<noteq> 0"
    by (simp_all add: line_eval)
  have b: "framed '':00000006FA''" "byteSum '':00000006FA'' mod 256 = 0"
    "5 < typeField '':00000006FA''"
    by (simp_all add: line_eval)
  have c: "\<not> framed '':0000006FA''"
    by (simp add: line_eval)
  have e: "\<not> foundEof initialState"
    by (simp add: initialState_def)
  have "processLine initialState '':00000006AB'' = Inl IncorrectChecksum"
    using C10_validation_order [of initialState "'':00000006AB''"]
    by (simp only: a e simp_thms if_True if_False)
  moreover have "processLine initialState '':00000006FA'' = Inl InvalidData"
    using C10_validation_order [of initialState "'':00000006FA''"] b e
    by blast
  moreover have "processLine initialState '':0000006FA'' = Inl InvalidData"
    using C10_validation_order [of initialState "'':0000006FA''"]
    by (simp only: c e simp_thms if_True if_False)
  ultimately show ?thesis by simp
qed

section \<open>The loop over the lines\<close>


lemma readLines_append:
  "readLines (xs @ ys) st i =
     (case readLines xs st i of
        Inl f \<Rightarrow> Inl f
      | Inr (st', i') \<Rightarrow> readLines ys st' i')"
  by (induction xs arbitrary: st i) (auto split: sum.splits)

lemma readLines_count:
  "readLines xs st i = Inr (st', i') \<Longrightarrow> i' = i + word_of_nat (length xs)"
proof (induction xs arbitrary: st i)
  case Nil
  then show ?case by simp
next
  case (Cons x xs)
  from Cons.prems obtain st1 where "processLine st x = Inr st1"
    and "readLines xs st1 (i + 1) = Inr (st', i')"
    by (auto split: sum.splits)
  from Cons.IH [OF this(2)] show ?case
    by (simp add: add.assoc)
qed

text \<open>
  C8: when the lines before line \<open>k\<close> are accepted, none of them being an EOF record,
  and line \<open>k\<close> is an EOF record (type 1, no payload, framed, checksum right), then any
  further line, whatever it holds, makes the run fail with "EOF record before end of
  file", reported with the line number \<open>k + 1\<close> (a 32-bit counter) and that line.
\<close>

theorem C8_line_after_eof:
  assumes "readLines before initialState 1 = Inr (st, k)"
    and "\<not> foundEof st"
    and "framed eofLine" and "byteSum eofLine mod 256 = 0"
    and "typeField eofLine = 1" and "byteCount eofLine = 0"
  shows "processHexFile \<lparr>inputLines = before @ eofLine # next # rest,
                          inputEof = atEof, inputLast = buf\<rparr>
           = Inl \<lparr>failure = EofRecordBeforeEnd, failureLine = k + 1,
                  failureText = makePrintable next\<rparr> \<and>
         k = word_of_nat (length before + 1) \<and>
         what EofRecordBeforeEnd = ''EOF record before end of file''"
proof -
  have eof: "processLine st eofLine = Inr (st\<lparr>foundEof := True\<rparr>)"
    using assms(2-6)
    by (simp add: processLine_def parseLine_eq handleRecord_def record_types)
  have nxt: "processLine (st\<lparr>foundEof := True\<rparr>) next = Inl EofRecordBeforeEnd"
    by (simp add: processLine_def)
  have "readLines (before @ eofLine # next # rest) initialState 1 =
      Inl \<lparr>failure = EofRecordBeforeEnd, failureLine = k + 1,
           failureText = makePrintable next\<rparr>"
    by (simp add: readLines_append assms(1) eof nxt)
  moreover have "k = word_of_nat (length before + 1)"
    using readLines_count [OF assms(1)] by simp
  ultimately show ?thesis
    by (simp add: processHexFile_def)
qed

theorem C8_line_after_eof_witness:
  "processHexFile \<lparr>inputLines = ['':0400100001020304E2'', '':00000001FF'', ''garbage''],
                    inputEof = True, inputLast = []\<rparr>
     = Inl \<lparr>failure = EofRecordBeforeEnd, failureLine = 3, failureText = ''garbage''\<rparr>"
proof -
  let ?st = "initialState\<lparr>chunks := [\<lparr>address = 16, size' = 4\<rparr>],
               numOverlapping := 0, numDataRecords := 1, maxDataSize := 4\<rparr>"
  have d: "framed '':0400100001020304E2''" "byteSum '':0400100001020304E2'' mod 256 = 0"
    "typeField '':0400100001020304E2'' = 0" "byteCount '':0400100001020304E2'' = 4"
    "rawAddress '':0400100001020304E2'' = 16"
    by (simp_all add: line_eval)
  have "processLine initialState '':0400100001020304E2'' = Inr ?st"
    by (simp add: processLine_def parseLine_eq d handleRecord_def record_types chunk_eval
        initialState_def)
  then have 1: "readLines ['':0400100001020304E2''] initialState 1 = Inr (?st, 2)"
    by simp
  have 2: "\<not> foundEof ?st" by (simp add: initialState_def)
  have e: "framed '':00000001FF''" "byteSum '':00000001FF'' mod 256 = 0"
    "typeField '':00000001FF'' = 1" "byteCount '':00000001FF'' = 0"
    by (simp_all add: line_eval)
  have p: "makePrintable ''garbage'' = ''garbage''"
    by (simp add: makePrintable_def isprint_def code_def)
  from C8_line_after_eof [OF 1 2 e, of "''garbage''" "[]" True "[]"]
  show ?thesis by (simp add: p)
qed

section \<open>Base address and effective address\<close>









section \<open>Counting overlaps\<close>


text \<open>
  C2 on an input where the code departs from it. After the chunks \<open>{0,4}\<close> and
  \<open>{10,4}\<close> the list is \<open>{10,4}\<close>, \<open>{0,4}\<close>. The chunk \<open>{2,8}\<close> overlaps \<open>{0,4}\<close>
  (the overlap test of the code holds for the two), but it merges into \<open>{10,4}\<close>, the
  first element, and the loop ends there: \<open>{0,4}\<close> is never tested and the counter
  stays 0. The same three data records as lines of a file leave \<^verbatim>\<open>numOverlapping\<close> at 0.
\<close>

theorem C2_overlap_behind_merge_not_counted:
  "addChunks [\<lparr>address = 0, size' = 4\<rparr>, \<lparr>address = 10, size' = 4\<rparr>] ([], 0)
     = ([\<lparr>address = 10, size' = 4\<rparr>, \<lparr>address = 0, size' = 4\<rparr>], 0) \<and>
   overlapTest \<lparr>address = 0, size' = 4\<rparr> \<lparr>address = 2, size' = 8\<rparr> \<and>
   addChunk \<lparr>address = 2, size' = 8\<rparr>
       ([\<lparr>address = 10, size' = 4\<rparr>, \<lparr>address = 0, size' = 4\<rparr>], 0)
     = ([\<lparr>address = 2, size' = 12\<rparr>, \<lparr>address = 0, size' = 4\<rparr>], 0) \<and>
   processHexFile
       \<lparr>inputLines = ['':0400000001020304F2'', '':04000A0001020304E8'',
                      '':080002000102030405060708D2'', '':00000001FF''],
        inputEof = True, inputLast = []\<rparr>
     = Inr \<lparr>chunks = [\<lparr>address = 2, size' = 12\<rparr>, \<lparr>address = 0, size' = 4\<rparr>],
            numOverlapping = 0, baseAddress = 0, foundEof = True,
            numStartAddresses = 0, startAddress = 0, numDataRecords = 3,
            maxDataSize = 8\<rparr>"
proof -
  have a: "framed '':0400000001020304F2''" "byteSum '':0400000001020304F2'' mod 256 = 0"
    "typeField '':0400000001020304F2'' = 0" "byteCount '':0400000001020304F2'' = 4"
    "rawAddress '':0400000001020304F2'' = 0"
    by (simp_all add: line_eval)
  have b: "framed '':04000A0001020304E8''" "byteSum '':04000A0001020304E8'' mod 256 = 0"
    "typeField '':04000A0001020304E8'' = 0" "byteCount '':04000A0001020304E8'' = 4"
    "rawAddress '':04000A0001020304E8'' = 10"
    by (simp_all add: line_eval)
  have c: "framed '':080002000102030405060708D2''"
    "byteSum '':080002000102030405060708D2'' mod 256 = 0"
    "typeField '':080002000102030405060708D2'' = 0"
    "byteCount '':080002000102030405060708D2'' = 8"
    "rawAddress '':080002000102030405060708D2'' = 2"
    by (simp_all add: line_eval)
  have e: "framed '':00000001FF''" "byteSum '':00000001FF'' mod 256 = 0"
    "typeField '':00000001FF'' = 1" "byteCount '':00000001FF'' = 0"
    by (simp_all add: line_eval)
  have "processHexFile
       \<lparr>inputLines = ['':0400000001020304F2'', '':04000A0001020304E8'',
                      '':080002000102030405060708D2'', '':00000001FF''],
        inputEof = True, inputLast = []\<rparr>
     = Inr \<lparr>chunks = [\<lparr>address = 2, size' = 12\<rparr>, \<lparr>address = 0, size' = 4\<rparr>],
            numOverlapping = 0, baseAddress = 0, foundEof = True,
            numStartAddresses = 0, startAddress = 0, numDataRecords = 3,
            maxDataSize = 8\<rparr>"
    by (simp add: processHexFile_def processLine_def parseLine_eq a b c e handleRecord_def
        record_types chunk_eval initialState_def)
  then show ?thesis
    by (simp add: chunk_eval)
qed

section \<open>The chunk list in order\<close>

lemma unat_end:
  assumes "validChunk c"
  shows "unat (address c + size' c) = chunkEnd c"
  using assms by (simp add: validChunk_def chunkEnd_def unat_add_lem [THEN iffD1])

lemma valid_address_less: "validChunk c \<Longrightarrow> unat (address c) < chunkEnd c"
  by (simp add: validChunk_def chunkEnd_def)

lemma end_eq_iff:
  assumes "validChunk a"
  shows "address a + size' a = x \<longleftrightarrow> chunkEnd a = unat x"
proof -
  have "address a + size' a = x \<longleftrightarrow> unat (address a + size' a) = unat x"
    by (simp add: word_unat_eq_iff)
  then show ?thesis by (simp add: unat_end [OF assms])
qed

lemma checkMerge_None:
  assumes "validChunk c" and "validChunk e" and "checkMergeChunk c e = None"
  shows "chunkEnd e \<noteq> unat (address c)" and "chunkEnd c \<noteq> unat (address e)"
  using assms(3) end_eq_iff [OF assms(1)] end_eq_iff [OF assms(2)]
  by (auto simp: checkMergeChunk_def split: if_splits)

lemma unat_size_sum:
  assumes "unat (s :: u32) + unat (t :: u32) < 2 ^ 32"
  shows "unat (s + t) = unat s + unat t"
  using assms by (simp add: unat_add_lem [THEN iffD1])

lemma checkMerge_Some:
  assumes c: "validChunk c" and e: "validChunk e" and m: "checkMergeChunk c e = Some m"
  shows "validChunk m \<and> chunkBytes m = chunkBytes e \<union> chunkBytes c \<and>
     (unat (address m) = unat (address e) \<and> chunkEnd m = chunkEnd c
        \<and> chunkEnd e = unat (address c)
      \<or> unat (address m) = unat (address c) \<and> chunkEnd m = chunkEnd e
        \<and> chunkEnd c = unat (address e))"
proof (cases "address e + size' e = address c")
  case True
  then have touch: "chunkEnd e = unat (address c)"
    by (simp add: end_eq_iff [OF e])
  from True m have m_def: "m = e\<lparr>size' := size' e + size' c\<rparr>"
    by (simp add: checkMergeChunk_def)
  have "unat (size' e) + unat (size' c) < 2 ^ 32"
    using c touch by (simp add: validChunk_def chunkEnd_def)
  then have sz: "unat (size' e + size' c) = unat (size' e) + unat (size' c)"
    by (rule unat_size_sum)
  have en: "chunkEnd m = chunkEnd c"
    using touch by (simp add: m_def chunkEnd_def sz)
  have "validChunk m"
    using c e en by (simp add: validChunk_def m_def sz)
  moreover have "chunkBytes m = chunkBytes e \<union> chunkBytes c"
    using touch en valid_address_less [OF c] valid_address_less [OF e]
    by (auto simp: chunkBytes_def m_def)
  ultimately show ?thesis
    using touch en by (simp add: m_def)
next
  case False
  with m have eq: "address c + size' c = address e"
    and m_def: "m = e\<lparr>address := address c, size' := size' e + size' c\<rparr>"
    by (simp_all add: checkMergeChunk_def split: if_splits)
  from eq have touch: "chunkEnd c = unat (address e)"
    by (simp add: end_eq_iff [OF c])
  have "unat (size' e) + unat (size' c) < 2 ^ 32"
    using e touch by (simp add: validChunk_def chunkEnd_def)
  then have sz: "unat (size' e + size' c) = unat (size' e) + unat (size' c)"
    by (rule unat_size_sum)
  have en: "chunkEnd m = chunkEnd e"
    using touch by (simp add: m_def chunkEnd_def sz)
  have "validChunk m"
    using c e en by (simp add: validChunk_def m_def sz)
  moreover have "chunkBytes m = chunkBytes e \<union> chunkBytes c"
    using touch en valid_address_less [OF c] valid_address_less [OF e]
    by (auto simp: chunkBytes_def m_def)
  ultimately show ?thesis
    using touch en by (simp add: m_def)
qed

lemma descending_Cons:
  "descending (a # cs) \<longleftrightarrow> validChunk a \<and> (\<forall>e \<in> set cs. below e a) \<and> descending cs"
  by (auto simp: descending_def)

lemma covered_Cons: "covered (a # cs) = chunkBytes a \<union> covered cs"
  by (simp add: covered_def)

lemma descending_valid: "descending cs \<Longrightarrow> e \<in> set cs \<Longrightarrow> validChunk e"
  by (simp add: descending_def list_all_iff)

text \<open>The step of lines 212 to 217, on a chunk that all the following ones end at or below.\<close>

lemma mergeNext_descending:
  assumes m: "validChunk m" and rest: "descending rest"
    and le: "\<forall>e \<in> set rest. chunkEnd e \<le> unat (address m)"
  shows "descending (mergeNext m rest) \<and>
         covered (mergeNext m rest) = chunkBytes m \<union> covered rest \<and>
         (\<forall>y \<in> set (mergeNext m rest). chunkEnd y \<le> chunkEnd m)"
proof (cases rest)
  case Nil
  then show ?thesis
    using m by (simp add: mergeNext_def descending_def covered_def)
next
  case (Cons nxt rest')
  from rest Cons have nxt: "validChunk nxt" and rest': "descending rest'"
    and bel: "\<forall>e \<in> set rest'. below e nxt"
    by (simp_all add: descending_Cons)
  from le Cons have le_nxt: "chunkEnd nxt \<le> unat (address m)" by simp
  have low: "chunkEnd e < unat (address nxt)" if "e \<in> set rest'" for e
    using bel that by (simp add: below_def)
  show ?thesis
  proof (cases "checkMergeChunk m nxt")
    case None
    from checkMerge_None(1) [OF m nxt None] le_nxt
    have "chunkEnd nxt < unat (address m)" by simp
    moreover have "chunkEnd e < unat (address m)" if "e \<in> set rest'" for e
      using low [OF that] valid_address_less [OF nxt] le_nxt by simp
    ultimately have "descending (m # nxt # rest')"
      using m rest Cons by (simp add: descending_Cons below_def)
    moreover have "\<forall>y \<in> set (m # nxt # rest'). chunkEnd y \<le> chunkEnd m"
      using le Cons valid_address_less [OF m] by fastforce
    ultimately show ?thesis
      using Cons None by (simp add: mergeNext_def covered_Cons)
  next
    case (Some m')
    from checkMerge_Some [OF m nxt Some]
    have v: "validChunk m'" and bytes: "chunkBytes m' = chunkBytes nxt \<union> chunkBytes m"
      and alt: "unat (address m') = unat (address nxt) \<and> chunkEnd m' = chunkEnd m
          \<and> chunkEnd nxt = unat (address m)
        \<or> unat (address m') = unat (address m) \<and> chunkEnd m' = chunkEnd nxt
          \<and> chunkEnd m = unat (address nxt)"
      by simp_all
    have "chunkEnd m \<noteq> unat (address nxt)"
      using valid_address_less [OF m] valid_address_less [OF nxt] le_nxt by simp
    with alt have ad: "unat (address m') = unat (address nxt)"
      and en: "chunkEnd m' = chunkEnd m" by auto
    have "descending (m' # rest')"
      using v rest' low by (simp add: descending_Cons below_def ad)
    moreover have "\<forall>y \<in> set (m' # rest'). chunkEnd y \<le> chunkEnd m"
      using en low valid_address_less [OF nxt] valid_address_less [OF m] le_nxt
      by fastforce
    ultimately show ?thesis
      using Cons Some by (auto simp: mergeNext_def covered_Cons bytes)
  qed
qed

text \<open>
  The loop on a list in order and a well-formed chunk that shares no byte with it: when
  the loop adds the chunk, the list is in order again and covers the chunk's bytes in
  addition; when it does not, the chunk lies below every chunk of the list.
\<close>

lemma scanChunks_descending:
  assumes c: "validChunk c"
  shows "descending cs \<Longrightarrow> \<forall>e \<in> set cs. disjointChunks e c \<Longrightarrow>
     scanChunks c cs n = (f, cs', n') \<Longrightarrow>
       (f \<longrightarrow> descending cs' \<and> covered cs' = covered cs \<union> chunkBytes c \<and>
          (\<forall>y \<in> set cs'. chunkEnd y \<le> chunkEnd c \<or> (\<exists>e \<in> set cs. chunkEnd y \<le> chunkEnd e))) \<and>
       (\<not> f \<longrightarrow> cs' = cs \<and> (\<forall>e \<in> set cs. chunkEnd c < unat (address e)))"
proof (induction cs arbitrary: n f cs' n')
  case Nil
  then show ?case by simp
next
  case (Cons it rest)
  from Cons.prems(1) have it: "validChunk it" and rest: "descending rest"
    and bel: "\<forall>e \<in> set rest. below e it"
    by (simp_all add: descending_Cons)
  from Cons.prems(2) have dis_it: "disjointChunks it c"
    and dis_rest: "\<forall>e \<in> set rest. disjointChunks e c" by simp_all
  have low: "chunkEnd e < unat (address it)" if "e \<in> set rest" for e
    using bel that by (simp add: below_def)
  note c_lt = valid_address_less [OF c] and it_lt = valid_address_less [OF it]
  define k where "k = (if overlapTest it c then n + 1 else n)"
  show ?case
  proof (cases "checkMergeChunk c it")
    case (Some m)
    from Cons.prems(3) Some have res: "f" "cs' = mergeNext m rest"
      by (simp_all add: Let_def)
    from checkMerge_Some [OF c it Some]
    have v: "validChunk m" and bytes: "chunkBytes m = chunkBytes it \<union> chunkBytes c"
      and alt: "unat (address m) = unat (address it) \<and> chunkEnd m = chunkEnd c
          \<and> chunkEnd it = unat (address c)
        \<or> unat (address m) = unat (address c) \<and> chunkEnd m = chunkEnd it
          \<and> chunkEnd c = unat (address it)"
      by simp_all
    have le: "\<forall>e \<in> set rest. chunkEnd e \<le> unat (address m)"
    proof
      fix e assume e: "e \<in> set rest"
      from dis_rest e have "chunkEnd e \<le> unat (address c) \<or> chunkEnd c \<le> unat (address e)"
        by (simp add: disjointChunks_def)
      moreover have "unat (address e) < chunkEnd e"
        using descending_valid [OF rest e] by (rule valid_address_less)
      ultimately show "chunkEnd e \<le> unat (address m)"
        using alt low [OF e] by auto
    qed
    from mergeNext_descending [OF v rest le]
    have d: "descending (mergeNext m rest)"
      and cv: "covered (mergeNext m rest) = chunkBytes m \<union> covered rest"
      and bd: "\<forall>y \<in> set (mergeNext m rest). chunkEnd y \<le> chunkEnd m"
      by simp_all
    have "\<forall>y \<in> set cs'. chunkEnd y \<le> chunkEnd c
        \<or> (\<exists>e \<in> set (it # rest). chunkEnd y \<le> chunkEnd e)"
      using bd alt unfolding res(2) by auto
    moreover have "covered cs' = covered (it # rest) \<union> chunkBytes c"
      unfolding res(2) cv bytes covered_Cons by auto
    ultimately show ?thesis
      using res d by simp
  next
    case None
    note no = checkMerge_None [OF c it None]
    show ?thesis
    proof (cases "address it \<le> address c")
      case True
      then have ge: "unat (address it) \<le> unat (address c)"
        by (simp add: word_le_nat_alt)
      from Cons.prems(3) None True have res: "f" "cs' = mergeNext c (it # rest)"
        by (simp_all add: Let_def)
      from dis_it ge c_lt it_lt no have gap: "chunkEnd it < unat (address c)"
        by (auto simp: disjointChunks_def)
      have le: "\<forall>e \<in> set (it # rest). chunkEnd e \<le> unat (address c)"
        using gap low it_lt by fastforce
      from mergeNext_descending [OF c Cons.prems(1) le]
      have d: "descending (mergeNext c (it # rest))"
        and cv: "covered (mergeNext c (it # rest)) = chunkBytes c \<union> covered (it # rest)"
        and bd: "\<forall>y \<in> set (mergeNext c (it # rest)). chunkEnd y \<le> chunkEnd c"
        by simp_all
      show ?thesis
        using res(1) d cv bd unfolding res(2) by auto
    next
      case False
      then have lt: "unat (address c) < unat (address it)"
        by (simp add: word_le_nat_alt)
      from dis_it lt c_lt it_lt no have gap: "chunkEnd c < unat (address it)"
        by (auto simp: disjointChunks_def)
      obtain f1 rest1 n1 where sc: "scanChunks c rest k = (f1, rest1, n1)"
        by (cases "scanChunks c rest k") auto
      from Cons.prems(3) None False sc have res: "f = f1" "cs' = it # rest1"
        by (simp_all add: Let_def k_def)
      note IH = Cons.IH [OF rest dis_rest sc]
      show ?thesis
      proof (cases f1)
        case True
        with IH have d1: "descending rest1"
          and cv1: "covered rest1 = covered rest \<union> chunkBytes c"
          and bd1: "\<forall>y \<in> set rest1. chunkEnd y \<le> chunkEnd c
              \<or> (\<exists>e \<in> set rest. chunkEnd y \<le> chunkEnd e)"
          by simp_all
        have "\<forall>y \<in> set rest1. below y it"
        proof
          fix y assume "y \<in> set rest1"
          with bd1 have "chunkEnd y \<le> chunkEnd c \<or> (\<exists>e \<in> set rest. chunkEnd y \<le> chunkEnd e)"
            by simp
          then show "below y it"
          proof
            assume "chunkEnd y \<le> chunkEnd c"
            with gap show ?thesis by (simp add: below_def)
          next
            assume "\<exists>e \<in> set rest. chunkEnd y \<le> chunkEnd e"
            then obtain e where "e \<in> set rest" and "chunkEnd y \<le> chunkEnd e" by auto
            with low [of e] show ?thesis by (simp add: below_def)
          qed
        qed
        then have "descending (it # rest1)"
          using it d1 by (simp add: descending_Cons)
        moreover have "covered (it # rest1) = covered (it # rest) \<union> chunkBytes c"
          by (auto simp: covered_Cons cv1)
        moreover have "\<forall>y \<in> set (it # rest1). chunkEnd y \<le> chunkEnd c
            \<or> (\<exists>e \<in> set (it # rest). chunkEnd y \<le> chunkEnd e)"
          using bd1 by auto
        ultimately show ?thesis
          using True res by simp
      next
        case False
        with IH have "rest1 = rest" and "\<forall>e \<in> set rest. chunkEnd c < unat (address e)"
          by simp_all
        then show ?thesis
          using False res gap by simp
      qed
    qed
  qed
qed

lemma overlapTest_iff:
  assumes "validChunk e" and "validChunk c"
  shows "overlapTest e c \<longleftrightarrow> \<not> disjointChunks e c"
  using unat_end [OF assms(1)] unat_end [OF assms(2)]
  by (auto simp: overlapTest_def disjointChunks_def word_less_nat_alt)

lemma scanChunks_counter:
  "\<forall>e \<in> set cs. \<not> overlapTest e c \<Longrightarrow> snd (snd (scanChunks c cs n)) = n"
proof (induction cs arbitrary: n)
  case Nil
  show ?case by simp
next
  case (Cons it rest)
  then have no: "\<not> overlapTest it c" and IH: "snd (snd (scanChunks c rest n)) = n"
    by simp_all
  obtain f1 rest1 n1 where sc: "scanChunks c rest n = (f1, rest1, n1)"
    by (cases "scanChunks c rest n") auto
  with IH have "n1 = n" by simp
  with no sc show ?case
    by (simp add: Let_def split: option.splits)
qed

text \<open>One admissible chunk, added to a list in order.\<close>

lemma addChunk_descending:
  assumes cs: "descending cs" and ad: "admissible cs c"
  shows "descending (fst (addChunk c (cs, n)))"
    and "covered (fst (addChunk c (cs, n))) = covered cs \<union> chunkBytes c"
    and "snd (addChunk c (cs, n)) = n"
proof -
  from ad have c: "validChunk c" and dis: "\<forall>e \<in> set cs. disjointChunks e c"
    and lo: "cs = [] \<or> unat (address (last cs)) \<le> chunkEnd c"
    by (simp_all add: admissible_def list_all_iff)
  obtain f cs' n' where sc: "scanChunks c cs n = (f, cs', n')"
    by (cases "scanChunks c cs n") auto
  note inv = scanChunks_descending [OF c cs dis sc]
  have "\<forall>e \<in> set cs. \<not> overlapTest e c"
    using dis c descending_valid [OF cs] by (simp add: overlapTest_iff)
  from scanChunks_counter [OF this, of n] sc have n': "n' = n" by simp
  show "snd (addChunk c (cs, n)) = n"
    using sc n' by (simp add: addChunk_def)
  show "descending (fst (addChunk c (cs, n)))"
    and "covered (fst (addChunk c (cs, n))) = covered cs \<union> chunkBytes c"
  proof -
    have "descending (fst (addChunk c (cs, n))) \<and>
        covered (fst (addChunk c (cs, n))) = covered cs \<union> chunkBytes c"
    proof (cases f)
      case True
      with inv sc show ?thesis by (simp add: addChunk_def)
    next
      case False
      with inv have same: "cs' = cs" and all: "\<forall>e \<in> set cs. chunkEnd c < unat (address e)"
        by simp_all
      have "cs = []"
      proof (rule ccontr)
        assume ne: "cs \<noteq> []"
        then have "last cs \<in> set cs" by simp
        with all have "chunkEnd c < unat (address (last cs))" by blast
        with lo ne show False by simp
      qed
      with False sc same c show ?thesis
        by (simp add: addChunk_def descending_def covered_def)
    qed
    then show "descending (fst (addChunk c (cs, n)))"
      and "covered (fst (addChunk c (cs, n))) = covered cs \<union> chunkBytes c"
      by simp_all
  qed
qed

text \<open>A sequence of admissible chunks.\<close>

lemma addChunks_descending:
  "descending (fst acc) \<Longrightarrow> admissibleSeq acc xs \<Longrightarrow>
     descending (fst (addChunks xs acc)) \<and>
     covered (fst (addChunks xs acc)) = covered (fst acc) \<union> covered xs \<and>
     snd (addChunks xs acc) = snd acc"
proof (induction xs arbitrary: acc)
  case Nil
  then show ?case by (simp add: addChunks_def covered_def)
next
  case (Cons x xs)
  obtain cs n where acc: "acc = (cs, n)" by (cases acc)
  from Cons.prems acc have cs: "descending cs" and ad: "admissible cs x"
    and seq: "admissibleSeq (addChunk x (cs, n)) xs"
    by simp_all
  note step = addChunk_descending [OF cs ad, of n]
  from Cons.IH [OF step(1) seq]
  have "descending (fst (addChunks xs (addChunk x (cs, n))))"
    and "covered (fst (addChunks xs (addChunk x (cs, n))))
        = covered (fst (addChunk x (cs, n))) \<union> covered xs"
    and "snd (addChunks xs (addChunk x (cs, n))) = snd (addChunk x (cs, n))"
    by simp_all
  moreover have "addChunks (x # xs) acc = addChunks xs (addChunk x (cs, n))"
    by (simp add: addChunks_def acc)
  ultimately show ?case
    using step(2,3) by (auto simp: acc covered_Cons)
qed

lemma descending_pairs:
  "descending cs \<Longrightarrow> a \<in> set cs \<Longrightarrow> b \<in> set cs \<Longrightarrow> a = b \<or> below a b \<or> below b a"
  by (induction cs) (auto simp: descending_Cons)

lemma descending_maximal:
  assumes cs: "descending cs" and e: "e \<in> set cs"
  shows "chunkEnd e \<notin> covered cs" and "Suc b = unat (address e) \<Longrightarrow> b \<notin> covered cs"
proof -
  note e_lt = valid_address_less [OF descending_valid [OF cs e]]
  show "chunkEnd e \<notin> covered cs"
  proof
    assume "chunkEnd e \<in> covered cs"
    then obtain d where d: "d \<in> set cs" and "chunkEnd e \<in> chunkBytes d"
      by (auto simp: covered_def)
    then have "unat (address d) \<le> chunkEnd e" and "chunkEnd e < chunkEnd d"
      by (simp_all add: chunkBytes_def)
    with descending_pairs [OF cs e d] e_lt show False
      by (auto simp: below_def)
  qed
  show "b \<notin> covered cs" if b: "Suc b = unat (address e)"
  proof
    assume "b \<in> covered cs"
    then obtain d where d: "d \<in> set cs" and "b \<in> chunkBytes d"
      by (auto simp: covered_def)
    then have "unat (address d) \<le> b" and "b < chunkEnd d"
      by (simp_all add: chunkBytes_def)
    with descending_pairs [OF cs e d] e_lt b show False
      by (auto simp: below_def)
  qed
qed

text \<open>
  C1, as the specification states it, does not hold: the chunks \<open>{0,8}\<close> and \<open>{4,8}\<close>
  cover the one region from 0 to 11, and the list holds two chunks that overlap.
\<close>

theorem C1_overlapping_chunks_counterexample:
  "fst (addChunks [\<lparr>address = 0, size' = 8\<rparr>, \<lparr>address = 4, size' = 8\<rparr>] ([], 0))
     = [\<lparr>address = 4, size' = 8\<rparr>, \<lparr>address = 0, size' = 8\<rparr>] \<and>
   overlapTest \<lparr>address = 0, size' = 8\<rparr> \<lparr>address = 4, size' = 8\<rparr> \<and>
   \<not> disjointChunks \<lparr>address = 0, size' = 8\<rparr> \<lparr>address = 4, size' = 8\<rparr>"
  by (simp add: chunk_eval disjointChunks_def chunkEnd_def)

text \<open>
  Chunks that overlap nothing can be left touching as well: \<open>{0,4}\<close> lies below the
  whole list \<open>{10,4}\<close> and goes to its front, so the list is no longer in order, and
  \<open>{14,4}\<close> is then put in front of \<open>{0,4}\<close> without meeting \<open>{10,4}\<close>, which it
  touches.
\<close>

lemma push_front_leaves_touching_chunks:
  "fst (addChunks [\<lparr>address = 10, size' = 4\<rparr>, \<lparr>address = 0, size' = 4\<rparr>,
                   \<lparr>address = 14, size' = 4\<rparr>] ([], 0))
     = [\<lparr>address = 14, size' = 4\<rparr>, \<lparr>address = 0, size' = 4\<rparr>,
        \<lparr>address = 10, size' = 4\<rparr>]"
  by (simp add: chunk_eval)

text \<open>
  A chunk that holds the last byte \<open>0xFFFFFFFF\<close> ends at \<open>2 ^ 32\<close>, which is 0 in the
  32-bit sum of the code: the chunk of the 4 bytes from \<open>0xFFFFFFFC\<close> on is merged with
  the chunk \<open>{0,4}\<close> at the other end of the address space.
\<close>

lemma top_chunk_merges_across_wrap:
  "addChunks [\<lparr>address = 0, size' = 4\<rparr>, \<lparr>address = 4294967292, size' = 4\<rparr>] ([], 0)
     = ([\<lparr>address = 4294967292, size' = 8\<rparr>], 0)"
  by (simp add: chunk_eval)

text \<open>
  C1, amended: take chunks of a size above 0 whose end, address plus size, is below
  \<open>2 ^ 32\<close> (none holds the byte \<open>0xFFFFFFFF\<close>), each of which, when it is added,
  shares no byte with a chunk of the list and does not lie wholly below the last chunk
  of a list that is not empty. Starting from the empty list, after every such sequence
  the list is in descending order of address with a gap between any two of its chunks
  (no two touch or overlap), it covers exactly the bytes of the chunks added, each of
  its chunks is a maximal contiguous region of them (the byte before it and the byte
  after it are not covered), and the overlap counter has not moved. Nothing is said of
  a chunk that overlaps one of the list.
\<close>

theorem C1_admissible_chunks_stay_apart:
  assumes "admissibleSeq ([], n) xs" and "cs = fst (addChunks xs ([], n))"
  shows "descending cs \<and>
         (\<forall>i j. i < j \<and> j < length cs \<longrightarrow> below (cs ! j) (cs ! i)) \<and>
         covered cs = covered xs \<and>
         (\<forall>e \<in> set cs. chunkEnd e \<notin> covered xs
            \<and> (\<forall>b. Suc b = unat (address e) \<longrightarrow> b \<notin> covered xs)) \<and>
         snd (addChunks xs ([], n)) = n"
proof -
  have "descending (fst ([] :: Chunk list, n))"
    by (simp add: descending_def)
  from addChunks_descending [OF this assms(1)]
  have d: "descending cs" and cv: "covered cs = covered xs"
    and cnt: "snd (addChunks xs ([], n)) = n"
    by (simp_all add: assms(2) covered_def)
  from d have "\<forall>i j. i < j \<and> j < length cs \<longrightarrow> below (cs ! j) (cs ! i)"
    by (simp add: descending_def sorted_wrt_iff_nth_less)
  moreover have "\<forall>e \<in> set cs. chunkEnd e \<notin> covered xs
      \<and> (\<forall>b. Suc b = unat (address e) \<longrightarrow> b \<notin> covered xs)"
    using descending_maximal [OF d] unfolding cv by blast
  ultimately show ?thesis
    using d cv cnt by simp
qed

theorem C1_admissible_chunks_witness:
  "admissibleSeq ([], 0)
     [\<lparr>address = 0, size' = 4\<rparr>, \<lparr>address = 20, size' = 4\<rparr>,
      \<lparr>address = 10, size' = 4\<rparr>, \<lparr>address = 4, size' = 6\<rparr>] \<and>
   fst (addChunks [\<lparr>address = 0, size' = 4\<rparr>, \<lparr>address = 20, size' = 4\<rparr>,
                   \<lparr>address = 10, size' = 4\<rparr>, \<lparr>address = 4, size' = 6\<rparr>] ([], 0))
     = [\<lparr>address = 20, size' = 4\<rparr>, \<lparr>address = 0, size' = 14\<rparr>] \<and>
   descending [\<lparr>address = 20, size' = 4\<rparr>, \<lparr>address = 0, size' = 14\<rparr>] \<and>
   covered [\<lparr>address = 20, size' = 4\<rparr>, \<lparr>address = 0, size' = 14\<rparr>]
     = covered [\<lparr>address = 0, size' = 4\<rparr>, \<lparr>address = 20, size' = 4\<rparr>,
                \<lparr>address = 10, size' = 4\<rparr>, \<lparr>address = 4, size' = 6\<rparr>]"
proof -
  let ?xs = "[\<lparr>address = 0, size' = 4\<rparr>, \<lparr>address = 20, size' = 4\<rparr>,
              \<lparr>address = 10, size' = 4\<rparr>, \<lparr>address = 4, size' = 6\<rparr>]"
  have h: "admissibleSeq ([], 0) ?xs"
    by (simp add: admissible_def validChunk_def chunkEnd_def disjointChunks_def chunk_eval)
  have r: "[\<lparr>address = 20, size' = 4\<rparr>, \<lparr>address = 0, size' = 14\<rparr>]
      = fst (addChunks ?xs ([], 0))"
    by (simp add: chunk_eval)
  from C1_admissible_chunks_stay_apart [OF h r] h r show ?thesis
    by simp
qed

end
